theory Spec2Isabelle
  imports Main "HOL-Library.Sublist"
begin

section \<open>JavaScript strings and regular expressions\<close>

text \<open>
  The component \<^verbatim>\<open>CodeEditor.tsx\<close> colours the document with five
  \<^verbatim>\<open>String.prototype.replace\<close> calls, each with a global regular expression.
  A JavaScript string is modelled as a \<^typ>\<open>string\<close>: the list of its code units, here
  the code units below 256. The regular expressions of the source are written as terms of
  the datatype \<open>regex\<close>, constructor by constructor, and matched by a backtracking matcher
  that returns the successes in the order in which the JavaScript matcher tries them.
\<close>

definition in_range :: "char \<Rightarrow> char \<Rightarrow> char \<Rightarrow> bool" where
  "in_range lo hi c = ((of_char lo :: nat) \<le> of_char c \<and> (of_char c :: nat) \<le> of_char hi)"

definition in_class :: "(char \<times> char) list \<Rightarrow> char \<Rightarrow> bool" where
  "in_class rs c = list_ex (\<lambda>(lo, hi). in_range lo hi c) rs"

text \<open>The word characters of \<^verbatim>\<open>\b\<close>: \<^verbatim>\<open>[A-Za-z0-9_]\<close>.\<close>

definition word_class :: "(char \<times> char) list" where
  "word_class = [(CHR ''A'', CHR ''Z''), (CHR ''a'', CHR ''z''), (CHR ''0'', CHR ''9''),
                 (CHR ''_'', CHR ''_'')]"

definition is_word_char :: "char \<Rightarrow> bool" where
  "is_word_char c = in_class word_class c"

text \<open>The line terminators that \<^verbatim>\<open>.\<close> does not match: line feed and carriage return
  (U+2028 and U+2029 are not code units below 256).\<close>

definition is_line_terminator :: "char \<Rightarrow> bool" where
  "is_line_terminator c = (c = CHR 0x0A \<or> c = CHR 0x0D)"

datatype regex =
    Lit string
  | Cls "(char \<times> char) list"
  | Dot
  | Seq regex regex
  | Alt regex regex
  | LazyStar regex
  | WordB
  | Group nat regex

text \<open>\<^verbatim>\<open>r{n}\<close>.\<close>

primrec times :: "nat \<Rightarrow> regex \<Rightarrow> regex" where
  "times 0 r = Lit []"
| "times (Suc n) r = Seq r (times n r)"

text \<open>
  A matcher state: the code unit before the current position (\<open>None\<close> at the start of
  the string), the rest of the string, and the captures made so far.
\<close>

type_synonym mstate = "char option \<times> string \<times> (nat \<rightharpoonup> string)"

definition word_before :: "char option \<Rightarrow> bool" where
  "word_before p = (case p of None \<Rightarrow> False | Some c \<Rightarrow> is_word_char c)"

definition word_at :: "string \<Rightarrow> bool" where
  "word_at s = (case s of [] \<Rightarrow> False | c # _ \<Rightarrow> is_word_char c)"

text \<open>
  \<open>ms r st\<close> lists the states in which a match of \<open>r\<close> from \<open>st\<close> can end, in
  the matcher's order of preference: the left alternative before the right one, and for the
  lazy star \<^verbatim>\<open>r*?\<close> no iteration before one more. An iteration of a star that consumes
  nothing is rejected, as in ECMAScript's RepeatMatcher.
\<close>

function ms :: "regex \<Rightarrow> mstate \<Rightarrow> mstate list" where
  "ms (Lit l) (p, s, g) =
     (if prefix l s then [(if l = [] then p else Some (last l), drop (length l) s, g)] else [])"
| "ms (Cls rs) (p, s, g) =
     (case s of [] \<Rightarrow> [] | c # cs \<Rightarrow> if in_class rs c then [(Some c, cs, g)] else [])"
| "ms Dot (p, s, g) =
     (case s of [] \<Rightarrow> [] | c # cs \<Rightarrow> if is_line_terminator c then [] else [(Some c, cs, g)])"
| "ms (Seq a b) st = concat (map (ms b) (ms a st))"
| "ms (Alt a b) st = ms a st @ ms b st"
| "ms (LazyStar a) (p, s, g) =
     (p, s, g) # concat (map (ms (LazyStar a))
        (filter (\<lambda>(p', s', g'). length s' < length s) (ms a (p, s, g))))"
| "ms WordB (p, s, g) = (if word_before p \<noteq> word_at s then [(p, s, g)] else [])"
| "ms (Group i a) (p, s, g) =
     map (\<lambda>(p', s', g'). (p', s', g'(i \<mapsto> take (length s - length s') s))) (ms a (p, s, g))"
  by pat_completeness auto
termination
  by (relation "measures [\<lambda>(r, st). size r, \<lambda>(r, (p, s, g)). length s]") auto

text \<open>
  One attempt of the regular expression at the current position: the first success, as the
  length of the match and its captures.
\<close>

definition run :: "regex \<Rightarrow> char option \<Rightarrow> string \<Rightarrow> (nat \<times> (nat \<rightharpoonup> string)) option" where
  "run r p s = (case ms r (p, s, Map.empty) of
                  [] \<Rightarrow> None
                | (p', s', g) # _ \<Rightarrow> Some (length s - length s', g))"

text \<open>
  \<^verbatim>\<open>s.replace(/r/g, f)\<close>: scan from the left; where the expression matches, emit the
  replacement and continue after the match (one code unit further after an empty match);
  elsewhere copy the code unit. \<open>p\<close> is the code unit before the current position of the
  string that is scanned.
\<close>

function replace_from ::
  "regex \<Rightarrow> (string \<Rightarrow> (nat \<rightharpoonup> string) \<Rightarrow> string) \<Rightarrow> char option \<Rightarrow> string \<Rightarrow> string" where
  "replace_from r f p s =
     (case run r p s of
        None \<Rightarrow> (case s of [] \<Rightarrow> [] | c # cs \<Rightarrow> c # replace_from r f (Some c) cs)
      | Some (n, g) \<Rightarrow>
          f (take n s) g @
          (if n = 0 then (case s of [] \<Rightarrow> [] | c # cs \<Rightarrow> c # replace_from r f (Some c) cs)
           else replace_from r f (Some (s ! (n - 1))) (drop n s)))"
  by pat_completeness auto
termination
proof (relation "measure (\<lambda>(r, f, p, s). length s)")
  fix r :: regex and f :: "string \<Rightarrow> (nat \<rightharpoonup> string) \<Rightarrow> string" and p s x n g
  assume "run r p s = Some x" and "(n, g) = x" and "n \<noteq> 0"
  then have "n \<le> length s" by (auto simp: run_def split: list.splits)
  with \<open>n \<noteq> 0\<close> show "((r, f, Some (s ! (n - 1)), drop n s), (r, f, p, s))
      \<in> measure (\<lambda>(r, f, p, s). length s)" by auto
qed auto

declare replace_from.simps [simp del]

definition replace_all :: "regex \<Rightarrow> (string \<Rightarrow> (nat \<rightharpoonup> string) \<Rightarrow> string) \<Rightarrow> string \<Rightarrow> string" where
  "replace_all r f s = replace_from r f None s"

text \<open>A capture interpolated into a template string: \<^verbatim>\<open>undefined\<close> prints as such.\<close>

definition cap :: "(nat \<rightharpoonup> string) \<Rightarrow> nat \<Rightarrow> string" where
  "cap g i = (case g i of None \<Rightarrow> ''undefined'' | Some x \<Rightarrow> x)"

text \<open>\<^verbatim>\<open>if (single)\<close>: \<^verbatim>\<open>undefined\<close> and the empty string are falsy.\<close>

definition truthy :: "string option \<Rightarrow> bool" where
  "truthy x = (case x of None \<Rightarrow> False | Some v \<Rightarrow> v \<noteq> [])"

section \<open>The highlighter\<close>

record colors =
  keyword :: string
  node :: string
  operator :: string

text \<open>\<open>getColors\<close>; the argument is \<^verbatim>\<open>theme.palette.mode === 'dark'\<close>.\<close>

definition getColors :: "bool \<Rightarrow> colors" where
  "getColors dark =
     \<lparr> keyword = (if dark then ''#B39DDB'' else ''#9575CD''),
       node = (if dark then ''#4fa1e3'' else ''#64B5F6''),
       operator = (if dark then ''#7DD180'' else ''#81C784'') \<rparr>"

definition hexColor :: "string \<Rightarrow> string" where
  "hexColor match = match"

definition span_open :: "string \<Rightarrow> string" where
  \<open>span_open col = ''<span style="color: '' @ col @ ''">''\<close>

definition span_close :: string where
  "span_close = ''</span>''"

definition letter_class :: "(char \<times> char) list" where
  "letter_class = [(CHR ''A'', CHR ''Z''), (CHR ''a'', CHR ''z'')]"

definition alnum_class :: "(char \<times> char) list" where
  "alnum_class = [(CHR ''A'', CHR ''Z''), (CHR ''a'', CHR ''z''), (CHR ''0'', CHR ''9'')]"

definition hex_class :: "(char \<times> char) list" where
  "hex_class = [(CHR ''A'', CHR ''F''), (CHR ''a'', CHR ''f''), (CHR ''0'', CHR ''9'')]"

text \<open>\<^verbatim>\<open>/<br\/>/g\<close>\<close>

definition br_re :: regex where
  "br_re = Lit ''<br/>''"

text \<open>\<^verbatim>\<open>/#[A-Fa-f0-9]{6}/g\<close>\<close>

definition hex_re :: regex where
  "hex_re = Seq (Lit ''#'') (times 6 (Cls hex_class))"

text \<open>\<^verbatim>\<open>/\b(graph|TD|LR|TB|RL)\b/g\<close>\<close>

definition keyword_re :: regex where
  "keyword_re =
     Seq WordB (Seq (Group 1 (Alt (Lit ''graph'') (Alt (Lit ''TD'') (Alt (Lit ''LR'')
       (Alt (Lit ''TB'') (Lit ''RL'')))))) WordB)"

text \<open>\<^verbatim>\<open>/\b([A-Za-z])\b|([A-Za-z][A-Za-z0-9]*?)(\(.*?\)|\[.*?\])/g\<close>\<close>

definition node_re :: regex where
  "node_re =
     Alt (Seq WordB (Seq (Group 1 (Cls letter_class)) WordB))
         (Seq (Group 2 (Seq (Cls letter_class) (LazyStar (Cls alnum_class))))
              (Group 3 (Alt (Seq (Lit ''('') (Seq (LazyStar Dot) (Lit '')'')))
                            (Seq (Lit ''['') (Seq (LazyStar Dot) (Lit '']''))))))"

text \<open>\<^verbatim>\<open>/-->/g\<close>\<close>

definition arrow_re :: regex where
  "arrow_re = Lit ''-->''"

text \<open>The replacements, in the order of the source.\<close>

definition br_repl :: "string \<Rightarrow> (nat \<rightharpoonup> string) \<Rightarrow> string" where
  "br_repl m g = ''&lt;br/&gt;''"

definition hex_repl :: "string \<Rightarrow> (nat \<rightharpoonup> string) \<Rightarrow> string" where
  "hex_repl m g = span_open (hexColor m) @ m @ span_close"

definition keyword_repl :: "colors \<Rightarrow> string \<Rightarrow> (nat \<rightharpoonup> string) \<Rightarrow> string" where
  "keyword_repl cs m g = span_open (keyword cs) @ cap g 1 @ span_close"

definition node_repl :: "colors \<Rightarrow> string \<Rightarrow> (nat \<rightharpoonup> string) \<Rightarrow> string" where
  "node_repl cs m g =
     (if truthy (g 1) then span_open (node cs) @ cap g 1 @ span_close
      else span_open (node cs) @ cap g 2 @ span_close @ cap g 3)"

definition arrow_repl :: "colors \<Rightarrow> string \<Rightarrow> (nat \<rightharpoonup> string) \<Rightarrow> string" where
  "arrow_repl cs m g = span_open (operator cs) @ ''-->'' @ span_close"

definition escape_br :: "string \<Rightarrow> string" where
  "escape_br s = replace_all br_re br_repl s"

definition hex_step :: "string \<Rightarrow> string" where
  "hex_step s = replace_all hex_re hex_repl s"

definition keyword_step :: "colors \<Rightarrow> string \<Rightarrow> string" where
  "keyword_step cs s = replace_all keyword_re (keyword_repl cs) s"

definition node_step :: "colors \<Rightarrow> string \<Rightarrow> string" where
  "node_step cs s = replace_all node_re (node_repl cs) s"

definition arrow_step :: "colors \<Rightarrow> string \<Rightarrow> string" where
  "arrow_step cs s = replace_all arrow_re (arrow_repl cs) s"

text \<open>\<open>coloredLine\<close> of one line.\<close>

definition coloredLine :: "bool \<Rightarrow> string \<Rightarrow> string" where
  "coloredLine dark line =
     (let cs = getColors dark in
      arrow_step cs (node_step cs (keyword_step cs (hex_step (escape_br line)))))"

text \<open>\<^verbatim>\<open>code.split('\n')\<close>\<close>

fun split_lines :: "string \<Rightarrow> string list" where
  "split_lines [] = [[]]"
| "split_lines (c # cs) =
     (if c = CHR 0x0A then [] # split_lines cs
      else (case split_lines cs of [] \<Rightarrow> [[c]] | l # ls \<Rightarrow> (c # l) # ls))"

text \<open>A rendered \<^verbatim>\<open>div\<close>: its key and the markup given as \<^verbatim>\<open>__html\<close>.\<close>

record line_div =
  key :: nat
  html :: string

text \<open>\<^verbatim>\<open>coloredLine || '&nbsp;'\<close>: the empty string is falsy.\<close>

definition line_html :: "bool \<Rightarrow> string \<Rightarrow> string" where
  "line_html dark line =
     (let coloredLine = coloredLine dark line in
      if coloredLine \<noteq> [] then coloredLine else ''&nbsp;'')"

definition highlightSyntax :: "bool \<Rightarrow> string \<Rightarrow> line_div list" where
  "highlightSyntax dark code =
     map (\<lambda>(i, line). \<lparr> key = i, html = line_html dark line \<rparr>) (enumerate 0 (split_lines code))"

text \<open>\<^verbatim>\<open>Array.from({ length: value.split('\n').length }, (_, i) => i + 1)\<close>\<close>

definition lineNumbers :: "string \<Rightarrow> nat list" where
  "lineNumbers v = map (\<lambda>i. i + 1) [0 ..< length (split_lines v)]"

section \<open>Direct descriptions of the five matchers\<close>

text \<open>
  What one attempt of each regular expression does at a position, written as a plain
  function of the code unit before the position and the rest of the string. Each is proved
  below to agree with the backtracking matcher on the expression of the source.
\<close>

definition hex_at :: "string \<Rightarrow> bool" where
  "hex_at s = (case s of [] \<Rightarrow> False
               | c # cs \<Rightarrow> c = CHR ''#'' \<and> 6 \<le> length cs \<and> list_all (in_class hex_class) (take 6 cs))"

definition keyword_list :: "string list" where
  "keyword_list = [''graph'', ''TD'', ''LR'', ''TB'', ''RL'']"

definition keyword_at :: "char option \<Rightarrow> string \<Rightarrow> string option" where
  "keyword_at p s =
     (if word_before p then None
      else find (\<lambda>k. prefix k s \<and> \<not> word_at (drop (length k) s)) keyword_list)"

text \<open>\<^verbatim>\<open>.*?\<close> followed by the closing delimiter: the number of code units before the
  first closing delimiter, if no line terminator comes before it.\<close>

fun close_at :: "char \<Rightarrow> string \<Rightarrow> nat option" where
  "close_at cl [] = None"
| "close_at cl (c # cs) =
     (if c = cl then Some 0
      else if is_line_terminator c then None
      else map_option Suc (close_at cl cs))"

text \<open>The length of the shape delimiter \<^verbatim>\<open>(...)\<close> or \<^verbatim>\<open>[...]\<close> at the head of the string.\<close>

definition shape_at :: "string \<Rightarrow> nat option" where
  "shape_at s =
     (case s of [] \<Rightarrow> None
      | c # cs \<Rightarrow>
          if c = CHR ''('' then map_option (\<lambda>k. k + 2) (close_at (CHR '')'') cs)
          else if c = CHR ''['' then map_option (\<lambda>k. k + 2) (close_at (CHR '']'') cs)
          else None)"

definition node_at :: "char option \<Rightarrow> string \<Rightarrow> (nat \<times> (nat \<rightharpoonup> string)) option" where
  "node_at p s =
     (case s of [] \<Rightarrow> None
      | c # cs \<Rightarrow>
          if \<not> in_class letter_class c then None
          else if \<not> word_before p \<and> \<not> word_at cs then Some (1, [1 \<mapsto> [c]])
          else (let name = c # takeWhile (in_class alnum_class) cs;
                    rest = dropWhile (in_class alnum_class) cs
                in case shape_at rest of
                     None \<Rightarrow> None
                   | Some k \<Rightarrow> Some (length name + k, [2 \<mapsto> name, 3 \<mapsto> take k rest])))"

definition shape_re :: regex where
  "shape_re = Alt (Seq (Lit ''('') (Seq (LazyStar Dot) (Lit '')'')))
                  (Seq (Lit ''['') (Seq (LazyStar Dot) (Lit '']'')))"

definition first :: "'a list \<Rightarrow> 'a option" where
  "first xs = (case xs of [] \<Rightarrow> None | x # _ \<Rightarrow> Some x)"

section \<open>The node step, in words\<close>

definition wrap_node :: "colors \<Rightarrow> string \<Rightarrow> string" where
  "wrap_node cs x = span_open (node cs) @ x @ span_close"







section \<open>Scroll synchronisation\<close>








section \<open>The copy affordance\<close>





section \<open>Markup inserted by the highlighter\<close>

text \<open>
  Every wrapper the four colouring steps insert is an opening tag
  \<^verbatim>\<open><span style="color: #hhhhhh">\<close> with six hexadecimal digits, or the closing tag
  \<^verbatim>\<open></span>\<close>.
\<close>

definition hex6 :: "string \<Rightarrow> bool" where
  "hex6 hs = (length hs = 6 \<and> list_all (in_class hex_class) hs)"

definition is_tag :: "string \<Rightarrow> bool" where
  "is_tag t = (t = span_close \<or> (\<exists>hs. hex6 hs \<and> t = span_open (CHR ''#'' # hs)))"




text \<open>
  \<open>tagged sf p s out\<close>: \<open>out\<close> is the text \<open>s\<close> with tags inserted, each at a place
  that \<open>sf\<close> allows; \<open>p\<close> is the code unit of \<open>s\<close> before the current position.
\<close>

inductive tagged :: "(char option \<Rightarrow> string \<Rightarrow> bool) \<Rightarrow> char option \<Rightarrow> string \<Rightarrow> string \<Rightarrow> bool"
  for sf :: "char option \<Rightarrow> string \<Rightarrow> bool" where
  Nil: "tagged sf p [] []"
| Chr: "tagged sf (Some c) s out \<Longrightarrow> tagged sf p (c # s) (c # out)"
| Tag: "is_tag t \<Longrightarrow> sf p s \<Longrightarrow> tagged sf p s out \<Longrightarrow> tagged sf p s (t @ out)"












section \<open>The matchers of the source agree with their direct descriptions\<close>

declare ms.simps(6) [simp del]


lemma in_class_Cons: "in_class ((lo, hi) # rs) c = (in_range lo hi c \<or> in_class rs c)"
  by (simp add: in_class_def)

lemma in_class_Nil: "in_class [] c = False"
  by (simp add: in_class_def)

lemmas class_defs = in_class_Cons in_class_Nil in_range_def word_class_def letter_class_def
  alnum_class_def hex_class_def is_word_char_def

lemma letter_word: "in_class letter_class c \<Longrightarrow> is_word_char c"
  by (auto simp: class_defs)




lemma first_simps [simp]:
  "first [] = None" "first (x # xs) = Some x"
  "first (xs @ ys) = (case first xs of None \<Rightarrow> first ys | Some x \<Rightarrow> Some x)"
  "first (map f xs) = map_option f (first xs)"
  by (auto simp: first_def split: list.splits)

lemma first_None_iff: "first xs = None \<longleftrightarrow> xs = []"
  by (cases xs) simp_all

lemma run_first:
  "run r p s = map_option (\<lambda>st. (length s - length (fst (snd st)), snd (snd st)))
                 (first (ms r (p, s, Map.empty)))"
  by (auto simp: run_def first_def split: list.splits)

lemma ms_Seq_Lit: "ms (Seq (Lit l) r) (p, s, g) =
   (if prefix l s then ms r (if l = [] then p else Some (last l), drop (length l) s, g) else [])"
  by simp

lemma ms_Seq_Cls: "ms (Seq (Cls rs) r) (p, s, g) =
   (case s of [] \<Rightarrow> [] | c # cs \<Rightarrow> if in_class rs c then ms r (Some c, cs, g) else [])"
  by (simp split: list.splits)

lemma ms_Seq_WordB: "ms (Seq WordB r) (p, s, g) =
   (if word_before p \<noteq> word_at s then ms r (p, s, g) else [])"
  by simp

lemma run_br: "run br_re p s = (if prefix ''<br/>'' s then Some (5, Map.empty) else None)"
  by (auto simp: run_def br_re_def dest: prefix_length_le)

lemma run_arrow: "run arrow_re p s = (if prefix ''-->'' s then Some (3, Map.empty) else None)"
  by (auto simp: run_def arrow_re_def dest: prefix_length_le)

lemma run_hex: "run hex_re p s = (if hex_at s then Some (7, Map.empty) else None)"
  apply (simp add: run_def hex_re_def eval_nat_numeral ms_Seq_Lit ms_Seq_Cls hex_at_def del: ms.simps
       split: list.splits)
  apply (auto simp: prefix_Cons split: list.splits)
  done

lemma first_map_filter:
  "(case map f (filter P xs) of [] \<Rightarrow> None | y # _ \<Rightarrow> Some (h y)) = map_option (\<lambda>x. h (f x)) (find P xs)"
  by (induction xs) auto

lemma concat_map_if_single:
  "concat (map (\<lambda>x. if Q x then [f x] else []) xs) = map f (filter Q xs)"
  by (induction xs) auto

lemma ms_keyword_alts:
  "ms (Alt (Lit ''graph'') (Alt (Lit ''TD'') (Alt (Lit ''LR'') (Alt (Lit ''TB'') (Lit ''RL'')))))
      (p, s, g) =
   map (\<lambda>k. (Some (last k), drop (length k) s, g)) (filter (\<lambda>k. prefix k s) keyword_list)"
  by (simp add: keyword_list_def)

lemma keyword_word_at: "k \<in> set keyword_list \<Longrightarrow> prefix k s \<Longrightarrow> word_at s"
  by (auto simp: keyword_list_def word_at_def prefix_Cons class_defs split: list.splits)

lemma keyword_last_word: "k \<in> set keyword_list \<Longrightarrow> word_before (Some (last k))"
  by (auto simp: keyword_list_def word_before_def class_defs)

lemma ms_keyword_group:
  "ms (Seq (Group 1 (Alt (Lit ''graph'') (Alt (Lit ''TD'') (Alt (Lit ''LR'')
       (Alt (Lit ''TB'') (Lit ''RL'')))))) WordB) (p, s, g) =
   map (\<lambda>k. (Some (last k), drop (length k) s, g(1 \<mapsto> k)))
     (filter (\<lambda>k. prefix k s \<and> \<not> word_at (drop (length k) s)) keyword_list)"
proof -
  let ?A = "Alt (Lit ''graph'') (Alt (Lit ''TD'') (Alt (Lit ''LR'') (Alt (Lit ''TB'') (Lit ''RL''))))"
  have a: "ms (Group 1 ?A) (p, s, g) =
      map (\<lambda>k. (Some (last k), drop (length k) s, g(1 \<mapsto> k))) (filter (\<lambda>k. prefix k s) keyword_list)"
    unfolding ms.simps(8) ms_keyword_alts
    by (auto simp: prefix_def)
  have b: "ms WordB (Some (last k), drop (length k) s, g(1 \<mapsto> k)) =
      (if \<not> word_at (drop (length k) s) then [(Some (last k), drop (length k) s, g(1 \<mapsto> k))] else [])"
    if "k \<in> set keyword_list" for k
    using keyword_last_word [OF that] by simp
  have "ms (Seq (Group 1 ?A) WordB) (p, s, g) =
     concat (map (ms WordB) (map (\<lambda>k. (Some (last k), drop (length k) s, g(1 \<mapsto> k)))
        (filter (\<lambda>k. prefix k s) keyword_list)))"
    unfolding ms.simps(4) a ..
  also have "\<dots> = concat (map (\<lambda>k. if \<not> word_at (drop (length k) s)
        then [(Some (last k), drop (length k) s, g(1 \<mapsto> k))] else [])
        (filter (\<lambda>k. prefix k s) keyword_list))"
    unfolding map_map comp_def
    by (rule arg_cong [where f = concat], rule map_cong [OF refl]) (simp only: b set_filter mem_Collect_eq)
  also have "\<dots> = map (\<lambda>k. (Some (last k), drop (length k) s, g(1 \<mapsto> k)))
     (filter (\<lambda>k. prefix k s \<and> \<not> word_at (drop (length k) s)) keyword_list)"
    unfolding concat_map_if_single filter_filter by (simp add: conj_commute)
  finally show ?thesis .
qed

lemma find_SomeD: "find P xs = Some x \<Longrightarrow> P x \<and> x \<in> set xs"
  by (induction xs) (auto split: if_splits)

lemma run_alt:
  "run r p s = (case ms r (p, s, Map.empty) of [] \<Rightarrow> None
                | st # _ \<Rightarrow> Some (length s - length (fst (snd st)), snd (snd st)))"
  by (auto simp: run_def split: list.splits)

lemma run_keyword:
  "run keyword_re p s =
     (case keyword_at p s of None \<Rightarrow> None | Some k \<Rightarrow> Some (length k, [1 \<mapsto> k]))"
proof (cases "word_before p \<noteq> word_at s")
  case True
  have len: "length s - length (drop (length k) s) = length k" if "prefix k s" for k
    using that by (auto simp: prefix_def)
  have "run keyword_re p s =
     map_option (\<lambda>k. (length s - length (drop (length k) s), [1 \<mapsto> k]))
       (find (\<lambda>k. prefix k s \<and> \<not> word_at (drop (length k) s)) keyword_list)"
    using True unfolding run_alt keyword_re_def ms_Seq_WordB ms_keyword_group
    by (simp only: first_map_filter fst_conv snd_conv if_True not_False_eq_True)
  also have "\<dots> = map_option (\<lambda>k. (length k, [1 \<mapsto> k]))
       (find (\<lambda>k. prefix k s \<and> \<not> word_at (drop (length k) s)) keyword_list)"
    by (auto simp: map_option_case split: option.splits dest!: find_SomeD len)
  also have "\<dots> = (case keyword_at p s of None \<Rightarrow> None | Some k \<Rightarrow> Some (length k, [1 \<mapsto> k]))"
  proof (cases "word_before p")
    case wb: True
    with True have "\<not> word_at s" by simp
    then have "find (\<lambda>k. prefix k s \<and> \<not> word_at (drop (length k) s)) keyword_list = None"
      by (auto simp: find_None_iff dest: keyword_word_at)
    with wb show ?thesis by (simp add: keyword_at_def)
  next
    case False
    then show ?thesis by (simp add: keyword_at_def map_option_case split: option.splits)
  qed
  finally show ?thesis .
next
  case False
  then have eq: "word_before p = word_at s" by simp
  have "run keyword_re p s = None"
    using False unfolding run_def keyword_re_def ms_Seq_WordB by simp
  moreover have "keyword_at p s = None"
  proof (cases "word_before p")
    case True
    then show ?thesis by (simp add: keyword_at_def)
  next
    case nb: False
    with eq have "\<not> word_at s" by simp
    then have "find (\<lambda>k. prefix k s \<and> \<not> word_at (drop (length k) s)) keyword_list = None"
      by (auto simp: find_None_iff dest: keyword_word_at)
    with nb show ?thesis by (simp add: keyword_at_def)
  qed
  ultimately show ?thesis by simp
qed

lemma ms_star_Cls:
  "ms (LazyStar (Cls rs)) (p, s, g) =
     (p, s, g) # (case s of [] \<Rightarrow> []
                  | c # cs \<Rightarrow> if in_class rs c then ms (LazyStar (Cls rs)) (Some c, cs, g) else [])"
  by (subst ms.simps(6)) (simp split: list.splits)

lemma ms_star_Dot:
  "ms (LazyStar Dot) (p, s, g) =
     (p, s, g) # (case s of [] \<Rightarrow> []
                  | c # cs \<Rightarrow> if is_line_terminator c then [] else ms (LazyStar Dot) (Some c, cs, g))"
  by (subst ms.simps(6)) (simp split: list.splits)

lemma star_Cls_then:
  assumes "\<And>p c cs g. in_class rs c \<Longrightarrow> F (p, c # cs, g) = []"
  shows "concat (map F (ms (LazyStar (Cls rs)) (p, s, g))) =
         F (if takeWhile (in_class rs) s = [] then p else Some (last (takeWhile (in_class rs) s)),
            dropWhile (in_class rs) s, g)"
proof (induction s arbitrary: p)
  case Nil
  show ?case by (subst ms_star_Cls) simp
next
  case (Cons c cs)
  show ?case
    by (subst ms_star_Cls) (simp add: assms Cons.IH)
qed

lemma first_closers:
  "first (concat (map (ms (Lit [cl])) (ms (LazyStar Dot) (p, s, g)))) =
     map_option (\<lambda>k. (Some cl, drop (Suc k) s, g)) (close_at cl s)"
proof (induction s arbitrary: p)
  case Nil
  show ?case by (subst ms_star_Dot) simp
next
  case (Cons c cs)
  show ?case
    by (subst ms_star_Dot) (simp add: Cons.IH option.map_comp comp_def)
qed

lemma close_at_less: "close_at cl s = Some k \<Longrightarrow> k < length s"
  by (induction s arbitrary: k) (auto split: if_splits)

lemma first_shape:
  "first (ms shape_re (p, s, g)) =
     map_option (\<lambda>k. (Some (s ! (k - 1)), drop k s, g)) (shape_at s)"
proof (cases s)
  case Nil
  then show ?thesis by (simp add: shape_re_def shape_at_def)
next
  case (Cons c cs)
  have a: "first (ms (Seq (Lit [cl]) (Seq (LazyStar Dot) (Lit [cl']))) (p, c # cs, g)) =
      (if c = cl then map_option (\<lambda>k. (Some cl', drop (Suc k) cs, g)) (close_at cl' cs) else None)"
    for cl cl'
    by (simp add: first_closers)
  have b: "close_at cl' cs = Some k \<Longrightarrow> cs ! k = cl'" for cl' k
    by (induction cs arbitrary: k) (auto split: if_splits)
  have c: "map_option (\<lambda>k. (Some cl', drop (Suc k) cs, g)) (close_at cl' cs) =
      map_option (\<lambda>k. (Some (cs ! k), drop (Suc k) cs, g)) (close_at cl' cs)" for cl'
    by (cases "close_at cl' cs") (simp_all add: b)
  show ?thesis
    unfolding shape_re_def ms.simps(5) first_simps Cons a
    by (auto simp: shape_at_def option.map_comp comp_def c split: option.splits)
qed

lemma shape_at_le: "shape_at s = Some k \<Longrightarrow> 2 \<le> k \<and> k \<le> length s"
  by (auto simp: shape_at_def split: list.splits if_splits dest!: close_at_less)

lemma shape_at_alnum: "in_class alnum_class c \<Longrightarrow> shape_at (c # cs) = None"
  by (auto simp: shape_at_def class_defs)

lemma run_node: "run node_re p s = node_at p s"
proof (cases s)
  case Nil
  then show ?thesis
    by (simp add: run_first node_re_def node_at_def)
next
  case (Cons c cs)
  let ?A1 = "Seq WordB (Seq (Group 1 (Cls letter_class)) WordB)"
  let ?N = "Seq (Cls letter_class) (LazyStar (Cls alnum_class))"
  let ?A2 = "Seq (Group 2 ?N) (Group 3 shape_re)"
  have re: "node_re = Alt ?A1 ?A2"
    by (simp add: node_re_def shape_re_def)
  show ?thesis
  proof (cases "in_class letter_class c")
    case False
    then show ?thesis
      unfolding run_first re Cons
      by (simp add: node_at_def)
  next
    case True
    then have w: "is_word_char c" by (rule letter_word)
    have a1: "ms ?A1 (p, c # cs, Map.empty) =
        (if \<not> word_before p \<and> \<not> word_at cs then [(Some c, cs, [1 \<mapsto> [c]])] else [])"
      using True w by (simp add: word_at_def word_before_def)
    let ?F = "\<lambda>st. ms (Group 3 shape_re)
        (case st of (p', s', g') \<Rightarrow> (p', s', g'(2 \<mapsto> take (length (c # cs) - length s') (c # cs))))"
    have F0: "?F (p', c' # cs', g') = []" if "in_class alnum_class c'" for p' c' cs' g'
    proof -
      have "first (ms shape_re (p', c' # cs', g'')) = None" for g''
        unfolding first_shape by (simp add: shape_at_alnum that)
      then have "ms shape_re (p', c' # cs', g'') = []" for g''
        by (simp only: first_None_iff)
      then show ?thesis by simp
    qed
    let ?nm = "takeWhile (in_class alnum_class) cs"
    let ?rest = "dropWhile (in_class alnum_class) cs"
    have len: "length (c # cs) - length ?rest = Suc (length ?nm)"
      by (metis Suc_diff_le add_diff_cancel_right' length_Cons length_append length_dropWhile_le
          takeWhile_dropWhile_id)
    have tk: "take (Suc (length ?nm)) (c # cs) = c # ?nm"
      by (simp add: takeWhile_eq_take [symmetric])
    have a2: "ms ?A2 (p, c # cs, Map.empty) =
        ms (Group 3 shape_re) (if ?nm = [] then Some c else Some (last ?nm), ?rest, [2 \<mapsto> c # ?nm])"
    proof -
      have "ms ?A2 (p, c # cs, Map.empty) = concat (map ?F (ms (LazyStar (Cls alnum_class)) (Some c, cs, Map.empty)))"
        using True by (simp add: map_map comp_def case_prod_beta)
      also have "\<dots> = ?F (if ?nm = [] then Some c else Some (last ?nm), ?rest, Map.empty)"
        by (rule star_Cls_then) (rule F0)
      also have "\<dots> = ms (Group 3 shape_re) (if ?nm = [] then Some c else Some (last ?nm), ?rest, [2 \<mapsto> c # ?nm])"
        unfolding prod.case len tk ..
      finally show ?thesis .
    qed
    have f2: "first (ms ?A2 (p, c # cs, Map.empty)) =
        map_option (\<lambda>k. (Some (?rest ! (k - 1)), drop k ?rest, [2 \<mapsto> c # ?nm, 3 \<mapsto> take k ?rest]))
          (shape_at ?rest)"
    proof (cases "shape_at ?rest")
      case None
      then show ?thesis unfolding a2 by (simp add: first_shape)
    next
      case (Some k)
      then have "k \<le> length ?rest" by (auto dest: shape_at_le)
      then have "length ?rest - (length ?rest - k) = k" by simp
      with Some show ?thesis unfolding a2 by (simp add: first_shape)
    qed
    show ?thesis
    proof (cases "\<not> word_before p \<and> \<not> word_at cs")
      case t: True
      then show ?thesis
        unfolding run_first re Cons ms.simps(5) first_simps a1
        using True by (simp add: node_at_def)
    next
      case f: False
      have "run node_re p s = map_option (\<lambda>st. (length s - length (fst (snd st)), snd (snd st)))
          (first (ms ?A2 (p, c # cs, Map.empty)))"
        unfolding run_first re Cons ms.simps(5) first_simps a1 using f by auto
      also have "\<dots> = node_at p s"
      proof (cases "shape_at ?rest")
        case None
        then show ?thesis unfolding f2 using f True by (auto simp: node_at_def Cons)
      next
        case (Some k)
        then have k: "k \<le> length ?rest" by (auto dest: shape_at_le)
        have "length ?rest \<le> length cs" by (rule length_dropWhile_le)
        have "length cs = length ?nm + length ?rest"
          by (metis length_append takeWhile_dropWhile_id)
        with k have "length s - (length ?rest - k) = Suc (length ?nm + k)"
          by (simp add: Cons)
        with Some show ?thesis unfolding f2 using f True by (auto simp: node_at_def Cons)
      qed
      finally show ?thesis .
    qed
  qed
qed


section \<open>Lines and line numbers\<close>

lemma length_split_lines: "length (split_lines s) = Suc (count_list s (CHR 0x0A))"
  by (induction s) (auto split: list.splits)

section \<open>The five replacements, unfolded\<close>





lemma replace_br_unfold:
  "replace_from br_re br_repl p s =
     (if prefix ''<br/>'' s
      then ''&lt;br/&gt;'' @ replace_from br_re br_repl (Some (CHR ''>'')) (drop 5 s)
      else (case s of [] \<Rightarrow> [] | c # cs \<Rightarrow> c # replace_from br_re br_repl (Some c) cs))"
  by (subst replace_from.simps) (auto simp: run_br br_repl_def prefix_def)

lemma replace_arrow_unfold:
  "replace_from arrow_re (arrow_repl cs) p s =
     (if prefix ''-->'' s
      then span_open (operator cs) @ ''-->'' @ span_close
             @ replace_from arrow_re (arrow_repl cs) (Some (CHR ''>'')) (drop 3 s)
      else (case s of [] \<Rightarrow> [] | c # cs' \<Rightarrow> c # replace_from arrow_re (arrow_repl cs) (Some c) cs'))"
  by (subst replace_from.simps) (auto simp: run_arrow arrow_repl_def prefix_def)

lemma replace_hex_unfold:
  "replace_from hex_re hex_repl p s =
     (if hex_at s
      then span_open (take 7 s) @ take 7 s @ span_close
             @ replace_from hex_re hex_repl (Some (s ! 6)) (drop 7 s)
      else (case s of [] \<Rightarrow> [] | c # cs \<Rightarrow> c # replace_from hex_re hex_repl (Some c) cs))"
  by (subst replace_from.simps) (simp add: run_hex hex_repl_def hexColor_def)

lemma keyword_at_prefix: "keyword_at p s = Some k \<Longrightarrow> prefix k s \<and> k \<in> set keyword_list"
  by (auto simp: keyword_at_def split: if_splits dest: find_SomeD)

lemma replace_keyword_unfold:
  "replace_from keyword_re (keyword_repl cs) p s =
     (case keyword_at p s of
        Some k \<Rightarrow> span_open (keyword cs) @ k @ span_close
                   @ replace_from keyword_re (keyword_repl cs) (Some (last k)) (drop (length k) s)
      | None \<Rightarrow> (case s of [] \<Rightarrow> [] | c # cs' \<Rightarrow> c # replace_from keyword_re (keyword_repl cs) (Some c) cs'))"
proof (cases "keyword_at p s")
  case None
  then show ?thesis by (subst replace_from.simps) (simp add: run_keyword)
next
  case (Some k)
  then have pk: "prefix k s" and kl: "k \<in> set keyword_list"
    by (auto dest: keyword_at_prefix)
  from kl have ne: "k \<noteq> []" by (auto simp: keyword_list_def)
  from pk ne have "s ! (length k - 1) = last k"
    by (auto simp: prefix_def last_conv_nth nth_append)
  with Some ne show ?thesis
    by (subst replace_from.simps) (simp add: run_keyword keyword_repl_def cap_def)
qed

lemma replace_node_unfold:
  "replace_from node_re (node_repl cs) p s =
     (case s of [] \<Rightarrow> []
      | c # s' \<Rightarrow>
          if in_class letter_class c \<and> \<not> word_before p \<and> \<not> word_at s' then
            wrap_node cs [c] @ replace_from node_re (node_repl cs) (Some c) s'
          else (let name = c # takeWhile (in_class alnum_class) s';
                    rest = dropWhile (in_class alnum_class) s'
                in case (if in_class letter_class c then shape_at rest else None) of
                     None \<Rightarrow> c # replace_from node_re (node_repl cs) (Some c) s'
                   | Some k \<Rightarrow> wrap_node cs name @ take k rest
                               @ replace_from node_re (node_repl cs) (Some (rest ! (k - 1))) (drop k rest)))"
proof (cases s)
  case Nil
  then show ?thesis by (subst replace_from.simps) (simp add: run_node node_at_def)
next
  case (Cons c s')
  let ?tw = "takeWhile (in_class alnum_class) s'"
  let ?rest = "dropWhile (in_class alnum_class) s'"
  have s': "s' = ?tw @ ?rest" by simp
  consider (single) "in_class letter_class c" "\<not> word_before p \<and> \<not> word_at s'"
    | (name) k where "in_class letter_class c" "\<not> (\<not> word_before p \<and> \<not> word_at s')" "shape_at ?rest = Some k"
    | (none) "\<not> in_class letter_class c \<or> (\<not> (\<not> word_before p \<and> \<not> word_at s') \<and> shape_at ?rest = None)"
    by (cases "shape_at ?rest") auto
  then show ?thesis
  proof cases
    case single
    then show ?thesis
      by (subst replace_from.simps)
         (simp add: Cons run_node node_at_def node_repl_def truthy_def cap_def wrap_node_def)
  next
    case name
    then have k: "2 \<le> k" "k \<le> length ?rest" by (auto dest: shape_at_le)
    have nth: "(c # s') ! (length ?tw + k) = ?rest ! (k - 1)"
    proof -
      have "(c # s') ! (length ?tw + k) = s' ! (length ?tw + (k - 1))" using k by (simp add: nth_Cons')
      also have "\<dots> = (?tw @ ?rest) ! (length ?tw + (k - 1))" by simp
      also have "\<dots> = ?rest ! (k - 1)" by (simp only: nth_append_length_plus)
      finally show ?thesis .
    qed
    have drp: "drop (length ?tw + k) s' = drop k ?rest"
    proof -
      have "drop (length ?tw + k) s' = drop (length ?tw + k) (?tw @ ?rest)" by simp
      also have "\<dots> = drop k ?rest" by (simp only: drop_append) simp
      finally show ?thesis .
    qed
    from name show ?thesis
      by (subst replace_from.simps)
         (auto simp add: Cons run_node node_at_def node_repl_def truthy_def cap_def wrap_node_def Let_def nth drp)
  next
    case none
    then show ?thesis
      by (subst replace_from.simps)
         (auto simp add: Cons run_node node_at_def Let_def)
  qed
qed


lemma coloredLine_empty: "coloredLine dark [] = []"
  by (simp add: coloredLine_def escape_br_def hex_step_def keyword_step_def node_step_def
      arrow_step_def replace_all_def replace_br_unfold replace_hex_unfold replace_keyword_unfold
      replace_node_unfold replace_arrow_unfold hex_at_def keyword_at_def keyword_list_def
      word_before_def)

lemma line_html_empty: "line_html dark [] = ''&nbsp;''"
  by (simp add: line_html_def coloredLine_empty)

section \<open>Tags are copied, and a tagged text stays tagged\<close>











lemma tagged_refl: "tagged sf p s s"
  by (induction s arbitrary: p) (auto intro: tagged.intros)













subsection \<open>Keyword step\<close>








lemma letter_not_lt: "in_class letter_class c \<Longrightarrow> c \<noteq> CHR ''<''"
  by (auto simp: class_defs)





subsection \<open>Node step\<close>




















subsection \<open>Arrow step\<close>







subsection \<open>The whole line\<close>




subsection \<open>The escape step\<close>









subsection \<open>Tagging adds no line break tag\<close>





subsection \<open>Counting arrows\<close>






























section \<open>What is wrapped stays wrapped\<close>







subsection \<open>A hexadecimal colour code through the five steps\<close>

















subsection \<open>The escape step and what follows a text\<close>








subsection \<open>The hex step and what follows a text\<close>









subsection \<open>The keyword step wraps a keyword that stands alone\<close>











section \<open>The claims\<close>

subsection \<open>C1: the copy feedback flag\<close>




subsection \<open>C3: node identifiers\<close>



subsection \<open>C4: keywords\<close>




subsection \<open>C5: arrows\<close>


subsection \<open>C6: hex colour codes\<close>



subsection \<open>C7: scroll synchronisation\<close>



subsection \<open>C8: the line break tag\<close>



subsection \<open>C9: empty lines\<close>



subsection \<open>C10: lines and line numbers\<close>

text \<open>
  C10: the highlighter renders as many lines as the gutter renders line numbers, one more
  than there are line feeds in the text; the line numbers are 1 to that count in order;
  the empty text gives one line, rendered for an empty line, and the line number 1.
\<close>

theorem C10_line_count:
  "length (highlightSyntax dark v) = length (lineNumbers v) \<and>
   length (lineNumbers v) = 1 + count_list v (CHR 0x0A) \<and>
   lineNumbers v = [1 ..< Suc (length (lineNumbers v))] \<and>
   highlightSyntax dark [] = [\<lparr> key = 0, html = ''&nbsp;'' \<rparr>] \<and>
   lineNumbers [] = [1]"
proof -
  have a: "length (highlightSyntax dark v) = length (lineNumbers v)"
    by (simp add: highlightSyntax_def lineNumbers_def)
  have b: "length (lineNumbers v) = 1 + count_list v (CHR 0x0A)"
    by (simp add: lineNumbers_def length_split_lines)
  have c: "lineNumbers v = [1 ..< Suc (length (lineNumbers v))]"
    by (simp add: lineNumbers_def map_Suc_upt del: upt_Suc)
  have d: "highlightSyntax dark [] = [\<lparr> key = 0, html = ''&nbsp;'' \<rparr>]"
    by (simp add: highlightSyntax_def line_html_empty)
  have e: "lineNumbers [] = [1]"
    by (simp add: lineNumbers_def)
  from a b c d e show ?thesis by blast
qed

end
